theory Spec2Isabelle
  imports Complex_Main "HOL-Library.Multiset"
begin

section \<open>Values, truthiness and exceptions\<close>

text \<open>
  The extractors return Python values (\<open>dict[str, Any]\<close> for a product page, a list of
  hrefs for a listing page, \<open>None\<close> when the retry wrapper gives up).  The worker and the
  page loader only ever test such a value for truthiness.
\<close>

datatype pyval =
    PyNone
  | PyBool bool
  | PyInt int
  | PyStr string
  | PyList "pyval list"
  | PyDict "(string \<times> pyval) list"

fun truthy :: "pyval \<Rightarrow> bool" where
  "truthy PyNone = False"
| "truthy (PyBool b) = b"
| "truthy (PyInt i) = (i \<noteq> 0)"
| "truthy (PyStr s) = (s \<noteq> [])"
| "truthy (PyList xs) = (xs \<noteq> [])"
| "truthy (PyDict kvs) = (kvs \<noteq> [])"

text \<open>
  What an awaited call can raise.  The first three are subclasses of \<open>Exception\<close>;
  \<open>CancelledError\<close> derives from \<open>BaseException\<close> only, so \<open>except Exception\<close> lets it
  through.
\<close>

datatype exn = NavigationError | ExtractionError | TimeoutError | CancelledError

fun is_Exception :: "exn \<Rightarrow> bool" where
  "is_Exception CancelledError = False"
| "is_Exception _ = True"

section \<open>The retry decorator\<close>

text \<open>
  \<^verbatim>\<open>
  attempt = 0
  while attempt < max_retries:
      attempt += 1
      try:
          return await func(*args, **kwargs)
      except Exception as error:
          delay_duration = attempt * RETRY_DELAY_FACTOR
          await asyncio.sleep(delay_duration)
  \<close>
  The wrapped coroutine is called with the same arguments every time, so what it does is
  given per attempt number: \<open>func k\<close> is the outcome of the \<open>k\<close>-th call.  The wrapper's
  observable behaviour is its result together with the sequence of calls and sleeps it
  performed.  Falling out of the loop returns \<open>None\<close>.
\<close>

datatype event = Attempt nat | Sleep int

function retry_loop ::
  "int \<Rightarrow> int \<Rightarrow> (nat \<Rightarrow> exn + pyval) \<Rightarrow> nat \<Rightarrow> event list \<Rightarrow> (exn + pyval) \<times> event list"
where
  "retry_loop max_retries delay_factor func attempt tr =
     (if int attempt < max_retries then
        (case func (Suc attempt) of
           Inr v \<Rightarrow> (Inr v, tr @ [Attempt (Suc attempt)])
         | Inl e \<Rightarrow>
             if is_Exception e then
               retry_loop max_retries delay_factor func (Suc attempt)
                 (tr @ [Attempt (Suc attempt), Sleep (int (Suc attempt) * delay_factor)])
             else (Inl e, tr @ [Attempt (Suc attempt)]))
      else (Inr PyNone, tr))"
  by pat_completeness auto
termination
  by (relation "measure (\<lambda>(m, d, f, a, t). nat (m - int a))") auto

definition retry :: "int \<Rightarrow> int \<Rightarrow> (nat \<Rightarrow> exn + pyval) \<Rightarrow> (exn + pyval) \<times> event list" where
  "retry max_retries delay_factor func = retry_loop max_retries delay_factor func 0 []"

text \<open>Observations on a trace of the wrapper.\<close>

fun attempts :: "event list \<Rightarrow> nat list" where
  "attempts [] = []"
| "attempts (Attempt k # es) = k # attempts es"
| "attempts (Sleep d # es) = attempts es"

fun sleeps :: "event list \<Rightarrow> int list" where
  "sleeps [] = []"
| "sleeps (Attempt k # es) = sleeps es"
| "sleeps (Sleep d # es) = d # sleeps es"

text \<open>The sleep performed directly after the call numbered \<open>k\<close>, if there is one.\<close>

fun delay_after :: "nat \<Rightarrow> event list \<Rightarrow> int option" where
  "delay_after k [] = None"
| "delay_after k (Attempt j # Sleep d # es) =
     (if j = k then Some d else delay_after k es)"
| "delay_after k (e # es) = delay_after k es"

text \<open>The sleep performed directly before the call numbered \<open>k\<close>, if there is one.\<close>

fun delay_before :: "nat \<Rightarrow> event list \<Rightarrow> int option" where
  "delay_before k [] = None"
| "delay_before k (Sleep d # Attempt j # es) =
     (if j = k then Some d else delay_before k es)"
| "delay_before k (e # es) = delay_before k es"

text \<open>A coroutine that raises on every call.\<close>

definition always_raises :: "exn \<Rightarrow> nat \<Rightarrow> exn + pyval" where
  "always_raises e k = Inl e"

text \<open>
  The calls and sleeps of \<open>n\<close> consecutive failed attempts that follow attempt
  number \<open>a\<close>.
\<close>

definition backoff :: "int \<Rightarrow> nat \<Rightarrow> nat \<Rightarrow> event list" where
  "backoff delay_factor a n =
     concat (map (\<lambda>j. [Attempt j, Sleep (int j * delay_factor)]) [Suc a..<Suc (a + n)])"

section \<open>Configuration\<close>

text \<open>
  \<open>config.py\<close> is not part of the sources; its four constants are parameters of
  everything below.
\<close>

record config =
  MAX_RETRIES :: int
  RETRY_DELAY_FACTOR :: int
  EXCLUDED_RES :: "string list"
  WORKER_LIMIT :: int

section \<open>The request filter\<close>

datatype route_action = Abort | Continue

definition handle_requests :: "config \<Rightarrow> string \<Rightarrow> route_action" where
  "handle_requests cfg resource_type =
     (if resource_type \<in> set (EXCLUDED_RES cfg) then Abort else Continue)"

section \<open>Loading one page\<close>

text \<open>
  An awaited coroutine either finishes after some time with a value or an exception, or
  never finishes.  \<open>asyncio.wait_for\<close> arms its timer before the coroutine starts, so a
  coroutine needing the full timeout is cancelled.
\<close>

datatype awaitable = Completes real "exn + pyval" | Never

fun wait_for :: "awaitable \<Rightarrow> real \<Rightarrow> exn + pyval" where
  "wait_for (Completes d r) timeout = (if d < timeout then r else Inl TimeoutError)"
| "wait_for Never timeout = Inl TimeoutError"

text \<open>
  What one execution of the body of \<open>_load_page\<close> meets: whether \<open>page.goto\<close> raises,
  and how \<open>parser(page)\<close> behaves on the page reached.
\<close>

record visit =
  goto :: "exn option"
  parser :: awaitable

definition load_page_body :: "visit \<Rightarrow> exn + pyval" where
  "load_page_body v =
     (case goto v of
        Some e \<Rightarrow> Inl e
      | None \<Rightarrow> wait_for (parser v) 3)"

definition load_page :: "config \<Rightarrow> (nat \<Rightarrow> visit) \<Rightarrow> exn + pyval" where
  "load_page cfg visits =
     fst (retry (MAX_RETRIES cfg) (RETRY_DELAY_FACTOR cfg) (\<lambda>k. load_page_body (visits k)))"

text \<open>The ways one execution of the body can go.\<close>

definition navigation_fails :: "visit \<Rightarrow> bool" where
  "navigation_fails v = (case goto v of Some e \<Rightarrow> is_Exception e | None \<Rightarrow> False)"

definition extractor_raises :: "visit \<Rightarrow> bool" where
  "extractor_raises v =
     (goto v = None \<and>
      (case parser v of
         Completes d r \<Rightarrow> d < 3 \<and> (case r of Inl e \<Rightarrow> is_Exception e | Inr x \<Rightarrow> False)
       | Never \<Rightarrow> False))"

definition times_out :: "visit \<Rightarrow> bool" where
  "times_out v =
     (goto v = None \<and> (case parser v of Completes d r \<Rightarrow> 3 \<le> d | Never \<Rightarrow> True))"

definition fails :: "visit \<Rightarrow> bool" where
  "fails v = (navigation_fails v \<or> extractor_raises v \<or> times_out v)"

definition extracts :: "visit \<Rightarrow> pyval \<Rightarrow> bool" where
  "extracts v x =
     (goto v = None \<and>
      (case parser v of Completes d r \<Rightarrow> d < 3 \<and> r = Inr x | Never \<Rightarrow> False))"

section \<open>Workers and sessions\<close>

record outcome =
  url :: string
  is_successful :: bool
  data :: pyval

definition record_outcome :: "string \<Rightarrow> pyval \<Rightarrow> outcome" where
  "record_outcome u result =
     (if truthy result then \<lparr>url = u, is_successful = True, data = result\<rparr>
      else \<lparr>url = u, is_successful = False, data = result\<rparr>)"

text \<open>
  One pass of the worker's loop body from \<open>_load_page\<close> to the append; an exception that
  leaves \<open>_load_page\<close> ends the worker.
\<close>

definition worker_body :: "config \<Rightarrow> string \<Rightarrow> (nat \<Rightarrow> visit) \<Rightarrow> exn + outcome" where
  "worker_body cfg u visits =
     (case load_page cfg visits of
        Inl e \<Rightarrow> Inl e
      | Inr result \<Rightarrow> Inr (record_outcome u result))"

type_synonym job = "nat \<times> nat \<times> string"

fun job_url :: "job \<Rightarrow> string" where
  "job_url (url_index, url_count, u) = u"

text \<open>
  A worker is blocked in \<open>queue.get()\<close>, or holds a job it has not recorded yet, or
  has appended the job's outcome and sleeps before \<open>queue.task_done()\<close>.
\<close>

datatype wstate = Idle | Loading job | Jitter job

text \<open>
  The shared state of one run of \<open>_create_session\<close>: the jobs the producer loop has
  still to put, the queue with its \<open>maxsize\<close> and its count of unfinished tasks, the
  worker tasks, and the list the workers append to.
\<close>

record session =
  pending :: "job list"
  maxsize :: int
  queue :: "job list"
  unfinished_tasks :: nat
  tabs :: "wstate list"
  session_result :: "outcome list"

text \<open>\<open>asyncio.Queue\<close>: a \<open>maxsize\<close> of zero or less means no bound.\<close>

definition queue_capacity :: "int \<Rightarrow> nat option" where
  "queue_capacity m = (if m \<le> 0 then None else Some (nat m))"

definition queue_full :: "session \<Rightarrow> bool" where
  "queue_full s =
     (case queue_capacity (maxsize s) of
        None \<Rightarrow> False
      | Some c \<Rightarrow> c \<le> length (queue s))"

definition new_tabs_count :: "config \<Rightarrow> string list \<Rightarrow> int" where
  "new_tabs_count cfg urls =
     (if int (length urls) < WORKER_LIMIT cfg then int (length urls) else WORKER_LIMIT cfg)"

definition tab_ids :: "config \<Rightarrow> string list \<Rightarrow> int list" where
  "tab_ids cfg urls = [1..new_tabs_count cfg urls]"

definition jobs :: "string list \<Rightarrow> job list" where
  "jobs urls = map (\<lambda>(index, u). (index, length urls, u)) (enumerate 1 urls)"

definition init_session :: "config \<Rightarrow> string list \<Rightarrow> session" where
  "init_session cfg urls =
     \<lparr>pending = jobs urls, maxsize = WORKER_LIMIT cfg, queue = [], unfinished_tasks = 0,
      tabs = map (\<lambda>tab_id. Idle) (tab_ids cfg urls), session_result = []\<rparr>"

text \<open>
  The tasks interleave at their awaits.  One scheduling step is the producer's next
  \<open>queue.put\<close>, or worker \<open>i\<close> taking a job, or worker \<open>i\<close> running \<open>_load_page\<close> and
  appending the outcome, or worker \<open>i\<close> acknowledging its job.  A step that cannot happen
  in the given state (the task is blocked, or it would die of an exception) is \<open>None\<close>.
\<close>

datatype action = Put | Get nat | Load nat "nat \<Rightarrow> visit" | TaskDone nat

fun step :: "config \<Rightarrow> action \<Rightarrow> session \<Rightarrow> session option" where
  "step cfg Put s =
     (case pending s of
        [] \<Rightarrow> None
      | j # js \<Rightarrow>
          if queue_full s then None
          else Some (s\<lparr>pending := js, queue := queue s @ [j],
                         unfinished_tasks := Suc (unfinished_tasks s)\<rparr>))"
| "step cfg (Get i) s =
     (if i < length (tabs s) \<and> tabs s ! i = Idle then
        (case queue s of
           [] \<Rightarrow> None
         | j # q \<Rightarrow> Some (s\<lparr>queue := q, tabs := (tabs s)[i := Loading j]\<rparr>))
      else None)"
| "step cfg (Load i visits) s =
     (if i < length (tabs s) then
        (case tabs s ! i of
           Loading j \<Rightarrow>
             (case worker_body cfg (job_url j) visits of
                Inl e \<Rightarrow> None
              | Inr item \<Rightarrow>
                  Some (s\<lparr>session_result := session_result s @ [item],
                           tabs := (tabs s)[i := Jitter j]\<rparr>))
         | _ \<Rightarrow> None)
      else None)"
| "step cfg (TaskDone i) s =
     (if i < length (tabs s) then
        (case tabs s ! i of
           Jitter j \<Rightarrow>
             if unfinished_tasks s = 0 then None
             else Some (s\<lparr>unfinished_tasks := unfinished_tasks s - 1,
                            tabs := (tabs s)[i := Idle]\<rparr>)
         | _ \<Rightarrow> None)
      else None)"

fun run :: "config \<Rightarrow> action list \<Rightarrow> session \<Rightarrow> session option" where
  "run cfg [] s = Some s"
| "run cfg (a # as) s = (case step cfg a s of None \<Rightarrow> None | Some s' \<Rightarrow> run cfg as s')"

text \<open>
  \<open>queue.join()\<close> is reached after the last put and returns once no task is
  unfinished; the session then returns what the workers have appended.
\<close>

definition joined :: "session \<Rightarrow> bool" where
  "joined s = (pending s = [] \<and> unfinished_tasks s = 0)"

definition create_session :: "config \<Rightarrow> string list \<Rightarrow> action list \<Rightarrow> outcome list option" where
  "create_session cfg urls schedule =
     (case run cfg schedule (init_session cfg urls) of
        None \<Rightarrow> None
      | Some s \<Rightarrow> if joined s then Some (session_result s) else None)"

text \<open>The schedule in which the first worker handles the jobs one after the other.\<close>

definition sequential :: "(nat \<Rightarrow> visit) list \<Rightarrow> action list" where
  "sequential vs = concat (map (\<lambda>v. [Put, Get 0, Load 0 v, TaskDone 0]) vs)"

text \<open>The urls of the jobs that workers hold unrecorded, and the number of busy workers.\<close>

fun loading_urls :: "wstate list \<Rightarrow> string list" where
  "loading_urls [] = []"
| "loading_urls (Loading j # ws) = job_url j # loading_urls ws"
| "loading_urls (w # ws) = loading_urls ws"

fun busy :: "wstate list \<Rightarrow> nat" where
  "busy [] = 0"
| "busy (Idle # ws) = busy ws"
| "busy (w # ws) = Suc (busy ws)"

section \<open>Fetching the products in rounds\<close>

text \<open>
  \<^verbatim>\<open>
  result = []
  remaining_retries = 3
  while remaining_retries and urls:
      remaining_retries -= 1
      attempt = await self._create_session(urls, self._product_parser)
      result.extend([item for item in attempt if item["is_successful"] == True])
      urls = [item["url"] for item in attempt if item["is_successful"] == False]
      if not urls:
          break
      if remaining_retries == 0:
          result.extend(attempt)
  self.products = result
  \<close>
  What a session returns depends on the pages and on the interleaving; it is given as
  \<open>run_session r urls\<close>, the list returned by the session started when \<open>r\<close> rounds
  remain, or \<open>None\<close> when that session does not return.
\<close>

function fetch_loop ::
  "(nat \<Rightarrow> string list \<Rightarrow> outcome list option) \<Rightarrow> nat \<Rightarrow> string list \<Rightarrow> outcome list
     \<Rightarrow> outcome list option"
where
  "fetch_loop run_session remaining_retries urls result =
     (if remaining_retries \<noteq> 0 \<and> urls \<noteq> [] then
        (case run_session remaining_retries urls of
           None \<Rightarrow> None
         | Some attempt \<Rightarrow>
             let result1 = result @ filter (\<lambda>item. is_successful item = True) attempt;
                 urls1 = map url (filter (\<lambda>item. is_successful item = False) attempt)
             in if urls1 = [] then Some result1
                else if remaining_retries - 1 = 0 then
                  fetch_loop run_session (remaining_retries - 1) urls1 (result1 @ attempt)
                else fetch_loop run_session (remaining_retries - 1) urls1 result1)
      else Some result)"
  by pat_completeness auto
termination
  by (relation "measure (\<lambda>(f, r, u, res). r)") auto

definition fetch_products ::
  "(nat \<Rightarrow> string list \<Rightarrow> outcome list option) \<Rightarrow> string list \<Rightarrow> outcome list option"
where
  "fetch_products run_session urls = fetch_loop run_session 3 urls []"

section \<open>The listing parser\<close>

text \<open>
  What the parser reads off a rendered listing page: the \<open>href\<close> attribute of every
  product card link, whether the first pagination link with the text Next is visible,
  and that link's \<open>href\<close> attribute (\<open>get_attribute\<close> returns \<open>None\<close> for a missing
  attribute).
\<close>

record listing_page =
  card_hrefs :: "string option list"
  next_visible :: bool
  next_href :: "string option"

definition get_urls_on_page :: "listing_page \<Rightarrow> string option list" where
  "get_urls_on_page p = (if card_hrefs p \<noteq> [] then card_hrefs p else [])"

definition get_next_page_url :: "listing_page \<Rightarrow> string option" where
  "get_next_page_url p = (if next_visible p then next_href p else Some [])"

text \<open>
  \<^verbatim>\<open>
  product_urls = []
  while True:
      product_urls.extend(await get_urls_on_page(self, page))
      next_page_url = await get_next_page_url(page)
      if next_page_url:
          await page.goto(next_page_url, wait_until="networkidle")
      else:
          break
  return product_urls
  \<close>
  \<open>site href\<close> is what \<open>page.goto(href)\<close> leads to: the page rendered there, or the
  exception raised.  The loop need not end, so it runs on fuel, one unit per page; running
  out is \<open>None\<close>.  Besides \<open>product_urls\<close> the model keeps the pages the loop body has
  run on, in order.
\<close>

fun listing_loop ::
  "nat \<Rightarrow> (string \<Rightarrow> exn + listing_page) \<Rightarrow> listing_page \<Rightarrow> listing_page list
     \<Rightarrow> string option list \<Rightarrow> (exn + listing_page list \<times> string option list) option"
where
  "listing_loop 0 site p visited product_urls = None"
| "listing_loop (Suc fuel) site p visited product_urls =
     (case get_next_page_url p of
        None \<Rightarrow> Some (Inr (visited @ [p], product_urls @ get_urls_on_page p))
      | Some href \<Rightarrow>
          if href \<noteq> [] then
            (case site href of
               Inl e \<Rightarrow> Some (Inl e)
             | Inr p' \<Rightarrow>
                 listing_loop fuel site p' (visited @ [p]) (product_urls @ get_urls_on_page p))
          else Some (Inr (visited @ [p], product_urls @ get_urls_on_page p)))"

definition listing_parser ::
  "nat \<Rightarrow> (string \<Rightarrow> exn + listing_page) \<Rightarrow> listing_page
     \<Rightarrow> (exn + listing_page list \<times> string option list) option"
where
  "listing_parser fuel site p = listing_loop fuel site p [] []"

text \<open>The address the loop navigates to from a page; \<open>None\<close> when it breaks there.\<close>

definition next_target :: "listing_page \<Rightarrow> string option" where
  "next_target p =
     (if next_visible p then
        (case next_href p of None \<Rightarrow> None | Some href \<Rightarrow> if href = [] then None else Some href)
      else None)"

text \<open>
  A crawl path: consecutive pages are joined by the Next link of the earlier one, and
  the last page has no target to go on to.
\<close>

fun crawl_path :: "(string \<Rightarrow> exn + listing_page) \<Rightarrow> listing_page list \<Rightarrow> bool" where
  "crawl_path site [] = False"
| "crawl_path site [p] = (next_target p = None)"
| "crawl_path site (p # q # ps) =
     ((case next_target p of None \<Rightarrow> False | Some href \<Rightarrow> site href = Inr q)
      \<and> crawl_path site (q # ps))"

text \<open>
  Every address is in exactly one place: not yet put, in the queue, held by a worker
  that has not recorded it, or in the result list.  The queue's count of unfinished tasks
  is the number of queued jobs plus the number of busy workers.
\<close>

definition accounted :: "string list \<Rightarrow> session \<Rightarrow> bool" where
  "accounted urls s =
     (mset (map job_url (pending s)) + mset (map job_url (queue s))
        + mset (loading_urls (tabs s)) + mset (map url (session_result s)) = mset urls
      \<and> unfinished_tasks s = length (queue s) + busy (tabs s))"

section \<open>Example inputs\<close>

definition example_config :: config where
  "example_config =
     \<lparr>MAX_RETRIES = 3, RETRY_DELAY_FACTOR = 1,
      EXCLUDED_RES = [''image'', ''font'', ''media''], WORKER_LIMIT = 2\<rparr>"

definition flaky_visits :: "nat \<Rightarrow> visit" where
  "flaky_visits k =
     (if k = 1 then \<lparr>goto = Some NavigationError, parser = Never\<rparr>
      else if k = 2 then \<lparr>goto = None, parser = Completes 5 (Inr (PyDict [(''name'', PyStr ''Predator'')]))\<rparr>
      else \<lparr>goto = None, parser = Completes (1 / 2) (Inr (PyDict [(''name'', PyStr ''Predator'')]))\<rparr>)"

definition failing_visits :: "nat \<Rightarrow> visit" where
  "failing_visits k = \<lparr>goto = None, parser = Never\<rparr>"

definition empty_visits :: "nat \<Rightarrow> visit" where
  "empty_visits k = \<lparr>goto = None, parser = Completes 1 (Inr (PyDict []))\<rparr>"

definition throwing_visits :: "nat \<Rightarrow> visit" where
  "throwing_visits k = \<lparr>goto = None, parser = Completes 1 (Inl ExtractionError)\<rparr>"

definition loading_session :: session where
  "loading_session =
     \<lparr>pending = [], maxsize = 2, queue = [], unfinished_tasks = 1,
      tabs = [Loading (1, 1, ''/p/1'')], session_result = []\<rparr>"

definition good_visits :: "string \<Rightarrow> nat \<Rightarrow> visit" where
  "good_visits name k =
     \<lparr>goto = None, parser = Completes 1 (Inr (PyDict [(''name'', PyStr name)]))\<rparr>"

definition interleaved :: "action list" where
  "interleaved =
     [Put, Put, Get 0, Get 1, Put, Load 1 (good_visits ''B''), Load 0 failing_visits,
      TaskDone 1, Get 1, TaskDone 0, Load 1 (good_visits ''C''), TaskDone 1]"

text \<open>
  A session run with the sequential schedule over pages given per url, as an
  environment for \<open>fetch_products\<close>: \<open>web r u\<close> is how the page at \<open>u\<close> behaves, attempt
  by attempt, in the session started when \<open>r\<close> rounds remain.
\<close>

definition scripted_session ::
  "config \<Rightarrow> (nat \<Rightarrow> string \<Rightarrow> nat \<Rightarrow> visit) \<Rightarrow> nat \<Rightarrow> string list \<Rightarrow> outcome list option"
where
  "scripted_session cfg web r urls = create_session cfg urls (sequential (map (web r) urls))"

text \<open>The value a worker gets from \<open>_load_page\<close> when no exception leaves it.\<close>

definition loaded :: "config \<Rightarrow> (nat \<Rightarrow> visit) \<Rightarrow> pyval" where
  "loaded cfg visits = (case load_page cfg visits of Inl e \<Rightarrow> PyNone | Inr result \<Rightarrow> result)"

text \<open>
  Two product pages: \<open>/a\<close> never loads; \<open>/b\<close> loads only in the last round.  And three
  product pages of which \<open>/c\<close> never loads and the others always do.
\<close>

definition late_web :: "nat \<Rightarrow> string \<Rightarrow> nat \<Rightarrow> visit" where
  "late_web r u = (if u = ''/b'' \<and> r = 1 then good_visits ''B'' else failing_visits)"

definition steady_web :: "nat \<Rightarrow> string \<Rightarrow> nat \<Rightarrow> visit" where
  "steady_web r u = (if u = ''/c'' then failing_visits else good_visits u)"

text \<open>
  A listing of two pages, 20 links and a visible Next link on the first, 10 links and no
  Next link on the second.  And a last page whose Next link is still visible but carries
  no \<open>href\<close>.
\<close>

definition page_two :: listing_page where
  "page_two =
     \<lparr>card_hrefs = map (\<lambda>n. Some (''/b/'' @ replicate n CHR ''x'')) [0..<10],
      next_visible = False, next_href = None\<rparr>"

definition page_one :: listing_page where
  "page_one =
     \<lparr>card_hrefs = map (\<lambda>n. Some (''/a/'' @ replicate n CHR ''x'')) [0..<20],
      next_visible = True, next_href = Some ''/list?p=2''\<rparr>"

definition two_page_site :: "string \<Rightarrow> exn + listing_page" where
  "two_page_site href = (if href = ''/list?p=2'' then Inr page_two else Inl NavigationError)"

definition disabled_next_page :: listing_page where
  "disabled_next_page =
     \<lparr>card_hrefs = [Some ''/a/1''], next_visible = True, next_href = None\<rparr>"

section \<open>Properties of the retry decorator\<close>

declare retry_loop.simps [simp del]

lemma backoff_0: "backoff F a 0 = []"
  by (simp add: backoff_def)

lemma backoff_Suc_left:
  "backoff F a (Suc n) = [Attempt (Suc a), Sleep (int (Suc a) * F)] @ backoff F (Suc a) n"
  by (simp add: backoff_def upt_conv_Cons del: upt_Suc)

lemma retry_loop_fails:
  "(\<forall>j. a < j \<and> j \<le> a + n \<longrightarrow> (\<exists>e. func j = Inl e \<and> is_Exception e)) \<Longrightarrow>
   int (a + n) \<le> m \<Longrightarrow>
   retry_loop m F func a tr = retry_loop m F func (a + n) (tr @ backoff F a n)"
proof (induction n arbitrary: a tr)
  case 0
  then show ?case by (simp add: backoff_0)
next
  case (Suc n)
  from Suc.prems(1) obtain e where e: "func (Suc a) = Inl e" "is_Exception e"
    by force
  have lt: "int a < m" using Suc.prems(2) by simp
  have step: "retry_loop m F func a tr =
      retry_loop m F func (Suc a) (tr @ [Attempt (Suc a), Sleep (int (Suc a) * F)])"
    using e lt by (subst retry_loop.simps) simp
  have "retry_loop m F func (Suc a) (tr @ [Attempt (Suc a), Sleep (int (Suc a) * F)]) =
        retry_loop m F func (Suc a + n)
          ((tr @ [Attempt (Suc a), Sleep (int (Suc a) * F)]) @ backoff F (Suc a) n)"
    using Suc.prems by (intro Suc.IH) auto
  with step show ?case by (simp add: backoff_Suc_left)
qed

lemma retry_loop_stop: "m \<le> int a \<Longrightarrow> retry_loop m F func a tr = (Inr PyNone, tr)"
  by (subst retry_loop.simps) simp

lemma attempts_append: "attempts (xs @ ys) = attempts xs @ attempts ys"
  by (induction xs rule: attempts.induct) auto

lemma sleeps_append: "sleeps (xs @ ys) = sleeps xs @ sleeps ys"
  by (induction xs rule: sleeps.induct) auto

lemma attempts_backoff: "attempts (backoff F a n) = [Suc a..<Suc (a + n)]"
  by (induction n arbitrary: a) (simp_all add: backoff_0 backoff_Suc_left upt_conv_Cons del: upt_Suc)

lemma sleeps_backoff: "sleeps (backoff F a n) = map (\<lambda>j. int j * F) [Suc a..<Suc (a + n)]"
  by (induction n arbitrary: a) (simp_all add: backoff_0 backoff_Suc_left upt_conv_Cons del: upt_Suc)

lemma retry_all_fail:
  assumes "\<forall>k. 1 \<le> k \<and> int k \<le> m \<longrightarrow> (\<exists>e. func k = Inl e \<and> is_Exception e)"
  shows "retry m F func = (Inr PyNone, backoff F 0 (nat m))"
proof (cases "0 \<le> m")
  case True
  have "retry_loop m F func 0 [] = retry_loop m F func (0 + nat m) ([] @ backoff F 0 (nat m))"
    using assms True by (intro retry_loop_fails) auto
  also have "\<dots> = (Inr PyNone, backoff F 0 (nat m))"
    by (simp add: retry_loop_stop)
  finally show ?thesis by (simp add: retry_def)
next
  case False
  then show ?thesis by (simp add: retry_def retry_loop_stop backoff_0)
qed

lemma sum_backoff: "sum_list (map (\<lambda>j. int j * F) [Suc 0..<Suc n]) = F * (int n * (int n + 1) div 2)"
proof (induction n)
  case 0 show ?case by simp
next
  case (Suc n)
  have "int (Suc n) * (int (Suc n) + 1) div 2 = int n * (int n + 1) div 2 + int (Suc n)"
  proof -
    have "int (Suc n) * (int (Suc n) + 1) = int n * (int n + 1) + 2 * int (Suc n)"
      by (simp add: algebra_simps)
    then show ?thesis by simp
  qed
  with Suc show ?case by (simp add: algebra_simps)
qed


lemma retry_loop_extends:
  "\<exists>rest. snd (retry_loop m F func a tr) = tr @ rest \<and> set (attempts rest) \<subseteq> {j. a < j}"
proof (induction m F func a tr rule: retry_loop.induct)
  case (1 m F func a tr)
  show ?case
  proof (cases "int a < m")
    case False
    then show ?thesis by (simp add: retry_loop_stop)
  next
    case lt: True
    show ?thesis
    proof (cases "func (Suc a)")
      case (Inr v)
      with lt show ?thesis by (subst retry_loop.simps) simp
    next
      case (Inl e)
      show ?thesis
      proof (cases "is_Exception e")
        case True
        from "1.IH"[OF lt Inl True] obtain rest where rest:
          "snd (retry_loop m F func (Suc a) (tr @ [Attempt (Suc a), Sleep (int (Suc a) * F)])) =
             (tr @ [Attempt (Suc a), Sleep (int (Suc a) * F)]) @ rest"
          "set (attempts rest) \<subseteq> {j. Suc a < j}" by blast
        have "snd (retry_loop m F func a tr) =
                tr @ ([Attempt (Suc a), Sleep (int (Suc a) * F)] @ rest)"
          using lt Inl True rest(1) by (subst retry_loop.simps) simp
        moreover have "set (attempts ([Attempt (Suc a), Sleep (int (Suc a) * F)] @ rest)) \<subseteq> {j. a < j}"
          using rest(2) by auto
        ultimately show ?thesis by blast
      next
        case False
        with lt Inl show ?thesis by (subst retry_loop.simps) simp
      qed
    qed
  qed
qed

lemma retry_loop_first:
  "int a < m \<Longrightarrow> \<exists>rest. snd (retry_loop m F func a tr) = tr @ Attempt (Suc a) # rest"
proof -
  assume lt: "int a < m"
  show ?thesis
  proof (cases "func (Suc a)")
    case (Inr v)
    with lt show ?thesis by (subst retry_loop.simps) simp
  next
    case (Inl e)
    show ?thesis
    proof (cases "is_Exception e")
      case True
      obtain rest where
        "snd (retry_loop m F func (Suc a) (tr @ [Attempt (Suc a), Sleep (int (Suc a) * F)])) =
           (tr @ [Attempt (Suc a), Sleep (int (Suc a) * F)]) @ rest"
        using retry_loop_extends by blast
      with lt Inl True show ?thesis by (subst retry_loop.simps) simp
    next
      case False
      with lt Inl show ?thesis by (subst retry_loop.simps) simp
    qed
  qed
qed

lemma delay_after_backoff:
  "a < k \<Longrightarrow> k \<le> a + n \<Longrightarrow> delay_after k (backoff F a n @ rest) = Some (int k * F)"
proof (induction n arbitrary: a)
  case 0
  then show ?case by simp
next
  case (Suc n)
  show ?case
  proof (cases "k = Suc a")
    case True
    then show ?thesis by (simp add: backoff_Suc_left)
  next
    case False
    with Suc.prems have "Suc a < k" "k \<le> Suc a + n" by auto
    from Suc.IH[OF this] False show ?thesis by (simp add: backoff_Suc_left)
  qed
qed

lemma delay_before_absent:
  "k \<notin> set (attempts es) \<Longrightarrow> delay_before k es = None"
  apply (induction k es rule: delay_before.induct)
  apply simp_all
  subgoal for k e vb va by (cases e) auto
  done

lemma delay_before_backoff:
  "delay_before k (Sleep d # backoff F a n @ Attempt (Suc (a + n)) # rest) =
     (if k = Suc a then Some d
      else if Suc a < k \<and> k \<le> Suc (a + n) then Some (int (k - 1) * F)
      else delay_before k rest)"
proof (induction n arbitrary: a d)
  case 0
  show ?case by (auto simp: backoff_0)
next
  case (Suc n)
  show ?case
    using Suc.IH[of "int (Suc a) * F" "Suc a"]
    by (auto simp: backoff_Suc_left)
qed


text \<open>
  Claim C3.  When the wrapped coroutine raises an \<open>Exception\<close> on every attempt, the
  wrapper calls it \<open>MAX_RETRIES\<close> times (attempts \<open>1, \<dots>, MAX_RETRIES\<close>, so never more)
  and then returns \<open>None\<close> instead of raising; it has slept \<open>k \<times> RETRY_DELAY_FACTOR\<close>
  after each attempt \<open>k\<close>, which for \<open>MAX_RETRIES = 3\<close> and \<open>RETRY_DELAY_FACTOR = 1\<close>
  adds up to \<open>1 + 2 + 3 = 6\<close>.  When the wrapped coroutine is the body of \<open>_load_page\<close>
  under the configured \<open>MAX_RETRIES\<close> and \<open>RETRY_DELAY_FACTOR\<close>, the worker that made the
  call appends for its job the outcome with \<open>is_successful = False\<close> and \<open>data = None\<close>.
\<close>

theorem retry_gives_up:
  assumes "\<forall>k. 1 \<le> k \<and> int k \<le> m \<longrightarrow> (\<exists>e. func k = Inl e \<and> is_Exception e)"
  shows "fst (retry m F func) = Inr PyNone
       \<and> attempts (snd (retry m F func)) = [1..<Suc (nat m)]
       \<and> (0 \<le> m \<longrightarrow> int (length (attempts (snd (retry m F func)))) \<le> m)
       \<and> sleeps (snd (retry m F func)) = map (\<lambda>k. int k * F) [1..<Suc (nat m)]
       \<and> (m = 3 \<and> F = 1 \<longrightarrow> sum_list (sleeps (snd (retry m F func))) = 1 + 2 + 3)
       \<and> ((\<forall>k. func k = load_page_body (visits k)) \<and> m = MAX_RETRIES cfg
              \<and> F = RETRY_DELAY_FACTOR cfg \<longrightarrow>
            load_page cfg visits = Inr PyNone
            \<and> worker_body cfg u visits = Inr \<lparr>url = u, is_successful = False, data = PyNone\<rparr>
            \<and> (i < length (tabs s) \<and> tabs s ! i = Loading (url_index, url_count, u) \<longrightarrow>
                 step cfg (Load i visits) s =
                   Some (s\<lparr>session_result :=
                              session_result s @ [\<lparr>url = u, is_successful = False, data = PyNone\<rparr>],
                            tabs := (tabs s)[i := Jitter (url_index, url_count, u)]\<rparr>)))"
proof -
  have w: "load_page cfg visits = Inr PyNone
      \<and> worker_body cfg u visits = Inr \<lparr>url = u, is_successful = False, data = PyNone\<rparr>
      \<and> (i < length (tabs s) \<and> tabs s ! i = Loading (url_index, url_count, u) \<longrightarrow>
           step cfg (Load i visits) s =
             Some (s\<lparr>session_result :=
                        session_result s @ [\<lparr>url = u, is_successful = False, data = PyNone\<rparr>],
                      tabs := (tabs s)[i := Jitter (url_index, url_count, u)]\<rparr>))"
    if f: "\<forall>k. func k = load_page_body (visits k)"
      and c: "m = MAX_RETRIES cfg" "F = RETRY_DELAY_FACTOR cfg"
  proof -
    have "func = (\<lambda>k. load_page_body (visits k))"
      using f by (intro ext) simp
    then have "retry (MAX_RETRIES cfg) (RETRY_DELAY_FACTOR cfg) (\<lambda>k. load_page_body (visits k)) =
        (Inr PyNone, backoff F 0 (nat m))"
      using retry_all_fail[OF assms, of F] c by simp
    then have l: "load_page cfg visits = Inr PyNone"
      by (simp add: load_page_def)
    then have "worker_body cfg u visits = Inr \<lparr>url = u, is_successful = False, data = PyNone\<rparr>"
      by (simp add: worker_body_def record_outcome_def)
    with l show ?thesis by simp
  qed
  have r: "retry m F func = (Inr PyNone, backoff F 0 (nat m))"
    using assms by (rule retry_all_fail)
  have s: "sleeps (snd (retry m F func)) = map (\<lambda>k. int k * F) [1..<Suc (nat m)]"
    by (simp add: r sleeps_backoff)
  have six: "sum_list (map (\<lambda>k. int k * 1) [1..<Suc (nat 3)]) = (1 + 2 + 3 :: int)"
    by code_simp
  have "sum_list (sleeps (snd (retry m F func))) = 1 + 2 + 3" if "m = 3" "F = 1"
  proof -
    have "sum_list (sleeps (snd (retry m F func))) =
          sum_list (map (\<lambda>k. int k * F) [1..<Suc (nat m)])"
      by (simp only: s)
    also have "\<dots> = 1 + 2 + 3"
      unfolding that by (rule six)
    finally show ?thesis .
  qed
  moreover have "attempts (snd (retry m F func)) = [1..<Suc (nat m)]"
    by (simp add: r attempts_backoff)
  ultimately show ?thesis
    using s w by (simp add: r)
qed

theorem retry_gives_up_witness:
  "fst (retry 3 1 (\<lambda>k. load_page_body (throwing_visits k))) = Inr PyNone
   \<and> attempts (snd (retry 3 1 (\<lambda>k. load_page_body (throwing_visits k)))) = [1, 2, 3]
   \<and> sleeps (snd (retry 3 1 (\<lambda>k. load_page_body (throwing_visits k)))) = [1, 2, 3]
   \<and> sum_list (sleeps (snd (retry 3 1 (\<lambda>k. load_page_body (throwing_visits k))))) = 6
   \<and> load_page example_config throwing_visits = Inr PyNone
   \<and> worker_body example_config ''/p/1'' throwing_visits =
       Inr \<lparr>url = ''/p/1'', is_successful = False, data = PyNone\<rparr>
   \<and> step example_config (Load 0 throwing_visits) loading_session =
       Some (loading_session
          \<lparr>session_result := [\<lparr>url = ''/p/1'', is_successful = False, data = PyNone\<rparr>],
           tabs := [Jitter (1, 1, ''/p/1'')]\<rparr>)"
proof -
  have b: "load_page_body (throwing_visits k) = Inl ExtractionError" for k
    by (simp add: load_page_body_def throwing_visits_def)
  have h: "\<forall>k. 1 \<le> k \<and> int k \<le> 3 \<longrightarrow>
      (\<exists>e. load_page_body (throwing_visits k) = Inl e \<and> is_Exception e)"
    by (simp add: b)
  have c: "(3::int) = MAX_RETRIES example_config" "(1::int) = RETRY_DELAY_FACTOR example_config"
    by (simp_all add: example_config_def)
  have l: "0 < length (tabs loading_session) \<and> tabs loading_session ! 0 = Loading (1, 1, ''/p/1'')"
    "session_result loading_session = []"
    "(tabs loading_session)[0 := Jitter (1, 1, ''/p/1'')] = [Jitter (1, 1, ''/p/1'')]"
    by (simp_all add: loading_session_def)
  from retry_gives_up[OF h, of 1 throwing_visits example_config "''/p/1''" 0 loading_session 1 1]
    c l
  show ?thesis by (simp add: numeral_3_eq_3 upt_conv_Cons del: upt_Suc)
qed

text \<open>
  Claim C4, amended.  The claim places the delay \<open>k \<times> RETRY_DELAY_FACTOR\<close> before
  attempt \<open>k\<close>.  The wrapper sleeps after a failed attempt, with that attempt's number:
  when attempts \<open>1, \<dots>, k\<close> have failed and \<open>k \<le> MAX_RETRIES\<close>, the sleep directly after
  attempt \<open>k\<close> is \<open>k \<times> RETRY_DELAY_FACTOR\<close>; nothing is waited before attempt 1; and the
  sleep directly before attempt \<open>k + 1\<close>, when that attempt is made, is
  \<open>k \<times> RETRY_DELAY_FACTOR\<close>.  The delays grow linearly, by \<open>RETRY_DELAY_FACTOR\<close> per attempt.
\<close>

theorem retry_backoff_schedule:
  assumes k: "1 \<le> k" "int k \<le> m"
    and fl: "\<forall>j. 1 \<le> j \<and> j \<le> k \<longrightarrow> (\<exists>e. func j = Inl e \<and> is_Exception e)"
  shows "delay_after k (snd (retry m F func)) = Some (int k * F)
       \<and> delay_before 1 (snd (retry m F func)) = None
       \<and> (int k < m \<longrightarrow> delay_before (Suc k) (snd (retry m F func)) = Some (int k * F))"
proof -
  let ?tr = "snd (retry m F func)"
  obtain k' where k': "k = Suc k'" using k(1) by (cases k) auto
  have run: "retry m F func = retry_loop m F func k (backoff F 0 k)"
    using retry_loop_fails[of 0 k func m F "[]"] k fl by (simp add: retry_def)
  obtain rest where rest: "?tr = backoff F 0 k @ rest" "set (attempts rest) \<subseteq> {j. k < j}"
    using retry_loop_extends[of m F func k "backoff F 0 k"] run by auto
  have A: "delay_after k ?tr = Some (int k * F)"
    using k(1) by (simp add: rest(1) delay_after_backoff)
  have "1 \<notin> set (attempts (Sleep (int (Suc 0) * F) # backoff F (Suc 0) k' @ rest))"
    using rest(2) k' by (auto simp: attempts_append attempts_backoff)
  then have B: "delay_before 1 ?tr = None"
    by (simp add: rest(1) k' backoff_Suc_left delay_before_absent del: attempts.simps)
  have C: "delay_before (Suc k) ?tr = Some (int k * F)" if lt: "int k < m"
  proof -
    obtain rest' where "?tr = backoff F 0 k @ Attempt (Suc k) # rest'"
      using retry_loop_first[OF lt, of F func "backoff F 0 k"] run by auto
    then have "delay_before (Suc k) ?tr =
        delay_before (Suc k) (Sleep (int (Suc 0) * F) # backoff F (Suc 0) k' @ Attempt (Suc (Suc 0 + k')) # rest')"
      by (simp add: k' backoff_Suc_left)
    also have "\<dots> = Some (int k * F)"
      by (subst delay_before_backoff) (simp add: k')
    finally show ?thesis .
  qed
  from A B C show ?thesis by blast
qed

theorem retry_backoff_schedule_witness:
  "(1::nat) \<le> 2 \<and> int 2 \<le> 3
   \<and> delay_after 2 (snd (retry 3 1 (always_raises ExtractionError))) = Some 2
   \<and> delay_before 1 (snd (retry 3 1 (always_raises ExtractionError))) = None
   \<and> delay_before 3 (snd (retry 3 1 (always_raises ExtractionError))) = Some 2"
  using retry_backoff_schedule[of 2 3 "always_raises ExtractionError" 1]
  by (simp add: always_raises_def numeral_3_eq_3)

text \<open>
  Claim C4 as stated fails: with \<open>MAX_RETRIES = 3\<close>, \<open>RETRY_DELAY_FACTOR = 1\<close> and a
  coroutine that always raises, no sleep precedes attempt 1, where the claim has a delay
  of \<open>1 \<times> 1\<close>.
\<close>

theorem retry_delay_before_first_counterexample: "delay_before 1 (snd (retry 3 1 (always_raises ExtractionError))) \<noteq> Some (1 * 1)"
  by (simp add: retry_def retry_loop.simps always_raises_def)

section \<open>Properties of the page loader\<close>

lemma fails_raises: "fails v \<Longrightarrow> \<exists>e. load_page_body v = Inl e \<and> is_Exception e"
  by (auto simp: fails_def navigation_fails_def extractor_raises_def times_out_def
        load_page_body_def split: option.splits awaitable.splits sum.splits)

lemma extracts_returns: "extracts v x \<Longrightarrow> load_page_body v = Inr x"
  by (auto simp: extracts_def load_page_body_def split: awaitable.splits)

lemma times_out_raises: "times_out v \<Longrightarrow> load_page_body v = Inl TimeoutError"
  by (auto simp: times_out_def load_page_body_def split: awaitable.splits)

lemma load_page_first_success:
  assumes fl: "\<forall>j. 1 \<le> j \<and> j < k \<longrightarrow> fails (visits j)"
    and k: "1 \<le> k" "int k \<le> MAX_RETRIES cfg"
    and ex: "extracts (visits k) x"
  shows "load_page cfg visits = Inr x"
proof -
  let ?f = "\<lambda>k. load_page_body (visits k)"
  obtain k' where k': "k = Suc k'" using k(1) by (cases k) auto
  have "\<forall>j. 0 < j \<and> j \<le> 0 + k' \<longrightarrow> (\<exists>e. ?f j = Inl e \<and> is_Exception e)"
    using fl k' by (auto intro: fails_raises)
  then have "retry_loop (MAX_RETRIES cfg) (RETRY_DELAY_FACTOR cfg) ?f 0 [] =
        retry_loop (MAX_RETRIES cfg) (RETRY_DELAY_FACTOR cfg) ?f (0 + k')
          ([] @ backoff (RETRY_DELAY_FACTOR cfg) 0 k')"
    using k(2) k' by (intro retry_loop_fails) auto
  moreover have "fst (retry_loop (MAX_RETRIES cfg) (RETRY_DELAY_FACTOR cfg) ?f k' tr) = Inr x" for tr
    using k(2) k' extracts_returns[OF ex] by (subst retry_loop.simps) simp
  ultimately show ?thesis by (simp add: load_page_def retry_def)
qed

lemma load_page_all_fail:
  assumes "\<forall>j. 1 \<le> j \<and> int j \<le> MAX_RETRIES cfg \<longrightarrow> fails (visits j)"
  shows "load_page cfg visits = Inr PyNone"
proof -
  have "\<forall>j. 1 \<le> j \<and> int j \<le> MAX_RETRIES cfg \<longrightarrow>
          (\<exists>e. load_page_body (visits j) = Inl e \<and> is_Exception e)"
    using assms by (auto intro: fails_raises)
  then show ?thesis
    by (simp add: load_page_def retry_all_fail)
qed

text \<open>
  Claim C5.  The extractor runs under \<open>wait_for(\<dots>, 3)\<close>: when it has not finished before
  3 time units are over, the attempt raises a timeout.  When attempts \<open>1, \<dots>, k - 1\<close> fail
  (each by a navigation error, an extractor exception or a timeout) and attempt
  \<open>k \<le> MAX_RETRIES\<close> extracts \<open>x\<close> within the timeout, the call returns \<open>x\<close>; when the
  attempts fail up to \<open>MAX_RETRIES\<close>, the call returns \<open>None\<close>.  Each of the three causes
  is an \<open>Exception\<close> caught by the wrapper, and the result does not depend on which of
  them made an attempt fail.
\<close>

theorem load_page_contract:
  assumes "\<forall>j. 1 \<le> j \<and> j < k \<longrightarrow> fails (visits j)"
  shows "(1 \<le> k \<and> int k \<le> MAX_RETRIES cfg \<and> extracts (visits k) x \<longrightarrow> load_page cfg visits = Inr x)
       \<and> (MAX_RETRIES cfg < int k \<longrightarrow> load_page cfg visits = Inr PyNone)
       \<and> (times_out v \<longrightarrow> load_page_body v = Inl TimeoutError)
       \<and> (fails v \<longrightarrow> (\<exists>e. load_page_body v = Inl e \<and> is_Exception e))"
proof -
  have "load_page cfg visits = Inr PyNone" if "MAX_RETRIES cfg < int k"
    using assms that by (intro load_page_all_fail) auto
  then show ?thesis
    using assms load_page_first_success times_out_raises fails_raises by blast
qed

theorem load_page_contract_witness:
  "fails (flaky_visits 1) \<and> fails (flaky_visits 2) \<and> times_out (flaky_visits 2)
   \<and> extracts (flaky_visits 3) (PyDict [(''name'', PyStr ''Predator'')])
   \<and> load_page example_config flaky_visits = Inr (PyDict [(''name'', PyStr ''Predator'')])
   \<and> load_page_body (flaky_visits 2) = Inl TimeoutError
   \<and> load_page example_config failing_visits = Inr PyNone"
proof -
  have g: "\<forall>j. 1 \<le> j \<and> j < 4 \<longrightarrow> fails (failing_visits j)"
    by (simp add: fails_def times_out_def failing_visits_def)
  have n: "load_page example_config failing_visits = Inr PyNone"
    using load_page_contract[OF g, of example_config PyNone "failing_visits 1"]
    by (simp add: example_config_def)
  have f: "fails (flaky_visits 1)" "fails (flaky_visits 2)" "times_out (flaky_visits 2)"
    by (simp_all add: fails_def navigation_fails_def times_out_def flaky_visits_def)
  have h: "\<forall>j. 1 \<le> j \<and> j < 3 \<longrightarrow> fails (flaky_visits j)"
  proof (intro allI impI)
    fix j :: nat assume "1 \<le> j \<and> j < 3"
    then have "j = 1 \<or> j = 2" by auto
    with f show "fails (flaky_visits j)" by auto
  qed
  have e: "extracts (flaky_visits 3) (PyDict [(''name'', PyStr ''Predator'')])"
    by (simp add: extracts_def flaky_visits_def)
  from load_page_contract[OF h, of example_config "PyDict [(''name'', PyStr ''Predator'')]" "flaky_visits 2"] f e
  show ?thesis using n by (simp add: example_config_def)
qed

text \<open>
  Claim C10.  When the first attempt that does not fail has the extractor return, within
  the timeout and without raising, a value \<open>x\<close> that is falsy (an empty mapping, say), the
  worker appends the outcome with \<open>is_successful = False\<close> and \<open>data = x\<close>: the flag is
  the truthiness of the returned value.
\<close>

theorem empty_extraction_recorded_as_failure:
  assumes "\<forall>j. 1 \<le> j \<and> j < k \<longrightarrow> fails (visits j)"
    and "1 \<le> k" and "int k \<le> MAX_RETRIES cfg"
    and "extracts (visits k) x" and "\<not> truthy x"
  shows "worker_body cfg u visits = Inr \<lparr>url = u, is_successful = False, data = x\<rparr>
       \<and> (i < length (tabs s) \<and> tabs s ! i = Loading (url_index, url_count, u) \<longrightarrow>
            step cfg (Load i visits) s =
              Some (s\<lparr>session_result :=
                         session_result s @ [\<lparr>url = u, is_successful = False, data = x\<rparr>],
                       tabs := (tabs s)[i := Jitter (url_index, url_count, u)]\<rparr>))"
proof -
  have "load_page cfg visits = Inr x"
    using assms(1-4) by (rule load_page_first_success)
  then have "worker_body cfg u visits = Inr \<lparr>url = u, is_successful = False, data = x\<rparr>"
    using assms(5) by (simp add: worker_body_def record_outcome_def)
  then show ?thesis by simp
qed

theorem empty_extraction_recorded_as_failure_witness:
  "extracts (empty_visits 1) (PyDict []) \<and> \<not> truthy (PyDict [])
   \<and> worker_body example_config ''/p/1'' empty_visits =
       Inr \<lparr>url = ''/p/1'', is_successful = False, data = PyDict []\<rparr>
   \<and> step example_config (Load 0 empty_visits) loading_session =
       Some (loading_session
          \<lparr>session_result := [\<lparr>url = ''/p/1'', is_successful = False, data = PyDict []\<rparr>],
           tabs := [Jitter (1, 1, ''/p/1'')]\<rparr>)"
proof -
  have l: "0 < length (tabs loading_session) \<and> tabs loading_session ! 0 = Loading (1, 1, ''/p/1'')"
    "session_result loading_session = []" "(tabs loading_session)[0 := Jitter (1, 1, ''/p/1'')] = [Jitter (1, 1, ''/p/1'')]"
    by (simp_all add: loading_session_def)
  have e: "extracts (empty_visits 1) (PyDict [])"
    by (simp add: extracts_def empty_visits_def)
  have h: "\<forall>j. 1 \<le> j \<and> j < (1::nat) \<longrightarrow> fails (empty_visits j)" by simp
  have m: "int 1 \<le> MAX_RETRIES example_config" by (simp add: example_config_def)
  from empty_extraction_recorded_as_failure[OF h _ m e, of "''/p/1''" 0 loading_session 1 1] e l
  show ?thesis by simp
qed

section \<open>Properties of the request filter and of the pool\<close>

text \<open>
  Claim C8.  The handler aborts a request exactly when its resource type is one of
  \<open>EXCLUDED_RES\<close> and lets it continue exactly when it is not; over a trace of requests
  the aborted ones are as many as those of an excluded type, the continued ones as many
  as the others.
\<close>

theorem request_filter:
  "(handle_requests cfg resource_type = Abort) = (resource_type \<in> set (EXCLUDED_RES cfg))
   \<and> (handle_requests cfg resource_type = Continue) = (resource_type \<notin> set (EXCLUDED_RES cfg))
   \<and> length (filter (\<lambda>a. a = Abort) (map (handle_requests cfg) requests)) =
       length (filter (\<lambda>t. t \<in> set (EXCLUDED_RES cfg)) requests)
   \<and> length (filter (\<lambda>a. a = Continue) (map (handle_requests cfg) requests)) =
       length (filter (\<lambda>t. t \<notin> set (EXCLUDED_RES cfg)) requests)"
proof -
  have a: "(handle_requests cfg t = Abort) = (t \<in> set (EXCLUDED_RES cfg))" for t
    by (simp add: handle_requests_def)
  have c: "(handle_requests cfg t = Continue) = (t \<notin> set (EXCLUDED_RES cfg))" for t
    by (simp add: handle_requests_def)
  show ?thesis
    by (simp add: a c filter_map comp_def)
qed

theorem request_filter_witness:
  "map (handle_requests example_config) [''document'', ''image'', ''script'', ''font'', ''image''] =
     [Continue, Abort, Continue, Abort, Abort]
   \<and> length (filter (\<lambda>a. a = Abort)
        (map (handle_requests example_config) [''document'', ''image'', ''script'', ''font'', ''image''])) = 3
   \<and> length (filter (\<lambda>a. a = Continue)
        (map (handle_requests example_config) [''document'', ''image'', ''script'', ''font'', ''image''])) = 2"
  using request_filter[of example_config "''image''" "[''document'', ''image'', ''script'', ''font'', ''image'']"]
  by (simp add: handle_requests_def example_config_def)

text \<open>
  Claim C6.  With a non-negative \<open>WORKER_LIMIT\<close>, a session spawns
  \<open>min (len(urls), WORKER_LIMIT)\<close> workers; for distinct addresses \<open>len(urls)\<close> is the size
  of the address set.
\<close>

theorem workers_spawned:
  assumes "0 \<le> WORKER_LIMIT cfg"
  shows "int (length (tabs (init_session cfg urls))) = min (int (length urls)) (WORKER_LIMIT cfg)
       \<and> (distinct urls \<longrightarrow>
            int (length (tabs (init_session cfg urls))) = min (int (card (set urls))) (WORKER_LIMIT cfg))"
  using assms
  by (auto simp: init_session_def tab_ids_def new_tabs_count_def distinct_card min_def)

theorem workers_spawned_witness:
  "0 \<le> WORKER_LIMIT example_config
   \<and> length (tabs (init_session example_config [''/a'', ''/b'', ''/c''])) = 2
   \<and> length (tabs (init_session example_config [''/a''])) = 1"
  using workers_spawned[of example_config "[''/a'', ''/b'', ''/c'']"]
        workers_spawned[of example_config "[''/a'']"]
  by (simp add: example_config_def)

section \<open>Properties of a session\<close>

lemma take_job:
  "i < length ws \<Longrightarrow> ws ! i = Idle \<Longrightarrow>
     mset (loading_urls (ws[i := Loading j])) = add_mset (job_url j) (mset (loading_urls ws))
     \<and> busy (ws[i := Loading j]) = Suc (busy ws)"
proof (induction ws arbitrary: i)
  case Nil
  then show ?case by simp
next
  case (Cons w ws)
  show ?case
  proof (cases i)
    case 0
    with Cons.prems show ?thesis by simp
  next
    case (Suc i')
    with Cons.prems have "i' < length ws" "ws ! i' = Idle" by auto
    from Cons.IH[OF this] Suc show ?thesis by (cases w) auto
  qed
qed

lemma record_job:
  "i < length ws \<Longrightarrow> ws ! i = Loading j \<Longrightarrow>
     add_mset (job_url j) (mset (loading_urls (ws[i := Jitter j]))) = mset (loading_urls ws)
     \<and> busy (ws[i := Jitter j]) = busy ws"
proof (induction ws arbitrary: i)
  case Nil
  then show ?case by simp
next
  case (Cons w ws)
  show ?case
  proof (cases i)
    case 0
    with Cons.prems show ?thesis by simp
  next
    case (Suc i')
    with Cons.prems have "i' < length ws" "ws ! i' = Loading j" by auto
    from Cons.IH[OF this] Suc show ?thesis by (cases w) auto
  qed
qed

lemma finish_job:
  "i < length ws \<Longrightarrow> ws ! i = Jitter j \<Longrightarrow>
     loading_urls (ws[i := Idle]) = loading_urls ws \<and> Suc (busy (ws[i := Idle])) = busy ws"
proof (induction ws arbitrary: i)
  case Nil
  then show ?case by simp
next
  case (Cons w ws)
  show ?case
  proof (cases i)
    case 0
    with Cons.prems show ?thesis by simp
  next
    case (Suc i')
    with Cons.prems have "i' < length ws" "ws ! i' = Jitter j" by auto
    from Cons.IH[OF this] Suc show ?thesis by (cases w) auto
  qed
qed

lemma idle_pool: "busy ws = 0 \<Longrightarrow> loading_urls ws = []"
proof (induction ws)
  case Nil
  show ?case by simp
next
  case (Cons w ws)
  then show ?case by (cases w) auto
qed

lemma worker_body_url: "worker_body cfg u visits = Inr item \<Longrightarrow> url item = u"
  by (auto simp: worker_body_def record_outcome_def split: sum.splits if_splits)

lemma step_accounted:
  assumes "step cfg a s = Some s'" and "accounted urls s"
  shows "accounted urls s'"
proof (cases a)
  case Put
  with assms show ?thesis
    by (auto simp: accounted_def split: list.splits if_splits)
next
  case (Get i)
  with assms obtain j q where q: "i < length (tabs s)" "tabs s ! i = Idle" "queue s = j # q"
      "s' = s\<lparr>queue := q, tabs := (tabs s)[i := Loading j]\<rparr>"
    by (auto split: list.splits if_splits)
  from take_job[OF q(1,2), of j] assms(2) q(3) show ?thesis
    by (simp add: accounted_def q(4))
next
  case (Load i visits)
  with assms obtain j item where l: "i < length (tabs s)" "tabs s ! i = Loading j"
      "worker_body cfg (job_url j) visits = Inr item"
      "s' = s\<lparr>session_result := session_result s @ [item], tabs := (tabs s)[i := Jitter j]\<rparr>"
    by (auto split: wstate.splits sum.splits if_splits)
  have e: "mset (loading_urls (tabs s)) =
      add_mset (job_url j) (mset (loading_urls ((tabs s)[i := Jitter j])))"
    and b: "busy ((tabs s)[i := Jitter j]) = busy (tabs s)"
    using record_job[OF l(1,2)] by simp_all
  from assms(2) worker_body_url[OF l(3)] show ?thesis
    by (simp add: accounted_def l(4) e b)
next
  case (TaskDone i)
  with assms obtain j where t: "i < length (tabs s)" "tabs s ! i = Jitter j"
      "unfinished_tasks s \<noteq> 0"
      "s' = s\<lparr>unfinished_tasks := unfinished_tasks s - 1, tabs := (tabs s)[i := Idle]\<rparr>"
    by (auto split: wstate.splits if_splits)
  from finish_job[OF t(1,2)] assms(2) t(3) show ?thesis
    by (auto simp: accounted_def t(4))
qed

lemma run_accounted:
  "run cfg schedule s = Some s' \<Longrightarrow> accounted urls s \<Longrightarrow> accounted urls s'"
proof (induction schedule arbitrary: s)
  case Nil
  then show ?case by simp
next
  case (Cons a as)
  then show ?case
    by (auto split: option.splits dest: step_accounted)
qed

lemma job_urls: "map job_url (jobs urls) = urls"
proof -
  have "map job_url (jobs urls) = map snd (enumerate 1 urls)"
    by (simp add: jobs_def split_def comp_def)
  then show ?thesis by (simp add: map_snd_enumerate)
qed

lemma idle_tabs: "loading_urls (map (\<lambda>t. Idle) xs) = [] \<and> busy (map (\<lambda>t. Idle) xs) = 0"
  by (induction xs) auto

lemma init_accounted: "accounted urls (init_session cfg urls)"
  by (simp add: accounted_def init_session_def job_urls idle_tabs)

lemma joined_accounted:
  assumes "accounted urls s" and "joined s"
  shows "mset (map url (session_result s)) = mset urls"
proof -
  from assms have "busy (tabs s) = 0" "queue s = []" "pending s = []"
    by (auto simp: accounted_def joined_def)
  with assms(1) idle_pool show ?thesis
    by (simp add: accounted_def)
qed

text \<open>
  Claim C1.  When a session returns (all jobs were put and \<open>queue.join()\<close> came back, no
  worker having died), the urls of the returned outcomes are the submitted urls, each
  as often as it was submitted, in some order: as many outcomes as addresses, and for
  distinct addresses no url twice and the same set of urls.
\<close>

theorem session_outcomes:
  assumes "create_session cfg urls schedule = Some results"
  shows "mset (map url results) = mset urls
       \<and> length results = length urls
       \<and> (distinct urls \<longrightarrow> distinct (map url results) \<and> set (map url results) = set urls)"
proof -
  from assms obtain s where s: "run cfg schedule (init_session cfg urls) = Some s"
      "joined s" "results = session_result s"
    by (auto simp: create_session_def split: option.splits if_splits)
  have m: "mset (map url results) = mset urls"
    using joined_accounted[OF run_accounted[OF s(1) init_accounted] s(2)] s(3) by simp
  from m have "length (map url results) = length urls"
    by (rule mset_eq_length)
  moreover have "distinct (map url results)" if "distinct urls"
    using m that by (metis distinct_count_atmost_1 mset_eq_setD set_mset_mset)
  moreover have "set (map url results) = set urls"
    using m by (rule mset_eq_setD)
  ultimately show ?thesis using m by simp
qed

lemma load_good: "load_page example_config (good_visits n) = Inr (PyDict [(''name'', PyStr n)])"
  by (rule load_page_first_success[where k = 1])
     (simp_all add: extracts_def good_visits_def example_config_def)

lemma load_failing: "load_page example_config failing_visits = Inr PyNone"
  by (rule load_page_all_fail) (simp add: fails_def times_out_def failing_visits_def)

theorem session_outcomes_witness:
  "create_session example_config [''/a'', ''/b'', ''/c''] interleaved =
     Some [\<lparr>url = ''/b'', is_successful = True, data = PyDict [(''name'', PyStr ''B'')]\<rparr>,
           \<lparr>url = ''/a'', is_successful = False, data = PyNone\<rparr>,
           \<lparr>url = ''/c'', is_successful = True, data = PyDict [(''name'', PyStr ''C'')]\<rparr>]
   \<and> mset (map url (the (create_session example_config [''/a'', ''/b'', ''/c''] interleaved)))
       = mset [''/a'', ''/b'', ''/c'']"
proof -
  have c: "create_session example_config [''/a'', ''/b'', ''/c''] interleaved =
     Some [\<lparr>url = ''/b'', is_successful = True, data = PyDict [(''name'', PyStr ''B'')]\<rparr>,
           \<lparr>url = ''/a'', is_successful = False, data = PyNone\<rparr>,
           \<lparr>url = ''/c'', is_successful = True, data = PyDict [(''name'', PyStr ''C'')]\<rparr>]"
    by (simp add: create_session_def interleaved_def init_session_def jobs_def tab_ids_def
          new_tabs_count_def enumerate_eq_zip queue_full_def queue_capacity_def worker_body_def
          record_outcome_def joined_def load_good load_failing upto.simps upt_conv_Cons
          example_config_def [THEN arg_cong, of WORKER_LIMIT] del: upt_Suc)
  from session_outcomes[OF c] c show ?thesis by simp
qed

section \<open>Properties of the queue\<close>

lemma step_queue_bound:
  assumes "step cfg a s = Some s'"
  shows "maxsize s' = maxsize s
       \<and> (queue_capacity (maxsize s) = Some c \<and> length (queue s) \<le> c \<longrightarrow> length (queue s') \<le> c)"
proof (cases a)
  case Put
  with assms show ?thesis
    by (auto simp: queue_full_def split: list.splits if_splits option.splits)
next
  case (Get i)
  with assms show ?thesis by (auto split: list.splits if_splits)
next
  case (Load i visits)
  with assms show ?thesis by (auto split: wstate.splits sum.splits if_splits)
next
  case (TaskDone i)
  with assms show ?thesis by (auto split: wstate.splits if_splits)
qed

lemma run_queue_bound:
  "run cfg schedule s = Some s' \<Longrightarrow> queue_capacity (maxsize s) = Some c \<Longrightarrow>
   length (queue s) \<le> c \<Longrightarrow> length (queue s') \<le> c"
proof (induction schedule arbitrary: s)
  case Nil
  then show ?case by simp
next
  case (Cons a as)
  from Cons.prems(1) obtain s1 where s1: "step cfg a s = Some s1" "run cfg as s1 = Some s'"
    by (auto split: option.splits)
  from step_queue_bound[OF s1(1), of c] Cons.prems(2,3)
  have "queue_capacity (maxsize s1) = Some c" "length (queue s1) \<le> c" by auto
  with Cons.IH[OF s1(2)] show ?case by blast
qed

text \<open>
  Claim C7, amended.  The queue is created as \<open>asyncio.Queue(WORKER_LIMIT)\<close>: for
  \<open>WORKER_LIMIT \<ge> 1\<close> it is bounded with capacity \<open>WORKER_LIMIT\<close>, whatever the number of
  addresses, and in no reachable state holds more jobs than that.  The capacity is the
  pool size exactly when there are at least \<open>WORKER_LIMIT\<close> addresses.
\<close>

theorem queue_capacity_is_worker_limit:
  assumes "1 \<le> WORKER_LIMIT cfg"
  shows "queue_capacity (maxsize (init_session cfg urls)) = Some (nat (WORKER_LIMIT cfg))
       \<and> ((queue_capacity (maxsize (init_session cfg urls)) =
             Some (length (tabs (init_session cfg urls))))
            = (WORKER_LIMIT cfg \<le> int (length urls)))
       \<and> (\<forall>schedule s. run cfg schedule (init_session cfg urls) = Some s \<longrightarrow>
             int (length (queue s)) \<le> WORKER_LIMIT cfg)"
proof -
  have c: "queue_capacity (maxsize (init_session cfg urls)) = Some (nat (WORKER_LIMIT cfg))"
    using assms by (simp add: queue_capacity_def init_session_def)
  have t: "length (tabs (init_session cfg urls)) = nat (min (int (length urls)) (WORKER_LIMIT cfg))"
    using assms by (auto simp: init_session_def tab_ids_def new_tabs_count_def min_def)
  have "int (length (queue s)) \<le> WORKER_LIMIT cfg"
    if "run cfg schedule (init_session cfg urls) = Some s" for schedule s
  proof -
    have "length (queue s) \<le> nat (WORKER_LIMIT cfg)"
      using run_queue_bound[OF that c] by (simp add: init_session_def)
    then show ?thesis using assms by linarith
  qed
  moreover have "(nat (WORKER_LIMIT cfg) = length (tabs (init_session cfg urls)))
      = (WORKER_LIMIT cfg \<le> int (length urls))"
    using assms unfolding t by (auto simp: min_def)
  ultimately show ?thesis using c by simp
qed

theorem queue_capacity_is_worker_limit_witness:
  "1 \<le> WORKER_LIMIT example_config
   \<and> queue_capacity (maxsize (init_session example_config [''/a'', ''/b'', ''/c''])) = Some 2
   \<and> length (tabs (init_session example_config [''/a'', ''/b'', ''/c''])) = 2
   \<and> map_option (\<lambda>s. length (queue s))
        (run example_config [Put, Put] (init_session example_config [''/a'', ''/b'', ''/c''])) = Some 2
   \<and> run example_config [Put, Put, Put] (init_session example_config [''/a'', ''/b'', ''/c'']) = None"
proof -
  have w: "1 \<le> WORKER_LIMIT example_config" by (simp add: example_config_def)
  have r: "map_option (\<lambda>s. length (queue s))
        (run example_config [Put, Put] (init_session example_config [''/a'', ''/b'', ''/c''])) = Some 2"
    "run example_config [Put, Put, Put] (init_session example_config [''/a'', ''/b'', ''/c'']) = None"
    by (simp_all add: init_session_def jobs_def enumerate_eq_zip queue_full_def queue_capacity_def
          upt_conv_Cons example_config_def [THEN arg_cong, of WORKER_LIMIT] del: upt_Suc)
  have wl: "WORKER_LIMIT example_config = 2" by (simp add: example_config_def)
  note q = queue_capacity_is_worker_limit[OF w, of "[''/a'', ''/b'', ''/c'']"]
  from q have A: "queue_capacity (maxsize (init_session example_config [''/a'', ''/b'', ''/c''])) = Some 2"
    by (simp add: wl)
  from q have "(queue_capacity (maxsize (init_session example_config [''/a'', ''/b'', ''/c''])) =
      Some (length (tabs (init_session example_config [''/a'', ''/b'', ''/c'']))))
      = (WORKER_LIMIT example_config \<le> int (length [''/a'', ''/b'', ''/c'']))"
    by blast
  then have "queue_capacity (maxsize (init_session example_config [''/a'', ''/b'', ''/c''])) =
      Some (length (tabs (init_session example_config [''/a'', ''/b'', ''/c''])))"
    unfolding wl by simp
  with A have B: "length (tabs (init_session example_config [''/a'', ''/b'', ''/c''])) = 2"
    by simp
  from w A B r show ?thesis by simp
qed

text \<open>
  Claim C7 as stated fails: for one address and \<open>WORKER_LIMIT = 2\<close> the queue's capacity
  is 2 and the pool has one worker.
\<close>

theorem queue_capacity_counterexample:
  "queue_capacity (maxsize (init_session example_config [''/a'']))
     \<noteq> Some (length (tabs (init_session example_config [''/a''])))"
  by (simp add: queue_capacity_def init_session_def tab_ids_def new_tabs_count_def
        example_config_def)


section \<open>Sessions under the sequential schedule\<close>

lemma empty_queue_not_full: "queue s = [] \<Longrightarrow> \<not> queue_full s"
  by (simp add: queue_full_def queue_capacity_def)

lemma sequential_Cons:
  "sequential (v # vs) = [Put, Get 0, Load 0 v, TaskDone 0] @ sequential vs"
  by (simp add: sequential_def)

lemma run_append:
  "run cfg (as @ bs) s = (case run cfg as s of None \<Rightarrow> None | Some s' \<Rightarrow> run cfg bs s')"
  by (induction as arbitrary: s) (auto split: option.splits)

lemma sequential_round:
  assumes t: "0 < length (tabs s)" "tabs s ! 0 = Idle"
    and q: "queue s = []"
    and p: "pending s = j # js"
    and l: "load_page cfg visits = Inr r"
  shows "run cfg [Put, Get 0, Load 0 visits, TaskDone 0] s =
           Some (s\<lparr>pending := js,
                    session_result := session_result s @ [record_outcome (job_url j) r]\<rparr>)"
proof -
  let ?s1 = "s\<lparr>pending := js, queue := [j], unfinished_tasks := Suc (unfinished_tasks s)\<rparr>"
  let ?s2 = "?s1\<lparr>queue := [], tabs := (tabs s)[0 := Loading j]\<rparr>"
  let ?s3 = "?s2\<lparr>session_result := session_result s @ [record_outcome (job_url j) r],
                  tabs := (tabs s)[0 := Jitter j]\<rparr>"
  let ?s4 = "?s3\<lparr>unfinished_tasks := unfinished_tasks s, tabs := (tabs s)[0 := Idle]\<rparr>"
  have 1: "step cfg Put s = Some ?s1"
    using p q empty_queue_not_full[OF q] by simp
  have 2: "step cfg (Get 0) ?s1 = Some ?s2"
    using t by simp
  have 3: "step cfg (Load 0 visits) ?s2 = Some ?s3"
    using t l by (simp add: worker_body_def)
  have 4: "step cfg (TaskDone 0) ?s3 = Some ?s4"
    using t by simp
  have "(tabs s)[0 := Idle] = tabs s"
    using t by (metis list_update_id)
  then have 5: "?s4 = s\<lparr>pending := js,
                    session_result := session_result s @ [record_outcome (job_url j) r]\<rparr>"
    using q by (cases s) simp
  show ?thesis
    unfolding run.simps 1 2 3 4 option.case 5 ..
qed

lemma sequential_run:
  assumes "js \<noteq> [] \<longrightarrow> 0 < length (tabs s) \<and> tabs s ! 0 = Idle"
    and "queue s = []" and "pending s = js"
    and "\<forall>j\<in>set js. \<exists>r. load_page cfg (web (job_url j)) = Inr r"
  shows "run cfg (sequential (map (\<lambda>j. web (job_url j)) js)) s =
           Some (s\<lparr>pending := [],
                    session_result := session_result s @
                      map (\<lambda>j. record_outcome (job_url j) (loaded cfg (web (job_url j)))) js\<rparr>)"
  using assms
proof (induction js arbitrary: s)
  case Nil
  then show ?case by (cases s) (simp add: sequential_def)
next
  case (Cons j js)
  from Cons.prems(4) obtain r where r: "load_page cfg (web (job_url j)) = Inr r" by auto
  then have lr: "loaded cfg (web (job_url j)) = r" by (simp add: loaded_def)
  let ?s' = "s\<lparr>pending := js,
                session_result := session_result s @ [record_outcome (job_url j) r]\<rparr>"
  from Cons.prems have t: "0 < length (tabs s)" "tabs s ! 0 = Idle" by auto
  have first: "run cfg [Put, Get 0, Load 0 (web (job_url j)), TaskDone 0] s = Some ?s'"
    using sequential_round[OF t Cons.prems(2,3) r] .
  have rest: "run cfg (sequential (map (\<lambda>j. web (job_url j)) js)) ?s' =
      Some (?s'\<lparr>pending := [],
               session_result := session_result ?s' @
                 map (\<lambda>j. record_outcome (job_url j) (loaded cfg (web (job_url j)))) js\<rparr>)"
    using Cons.prems t by (intro Cons.IH) auto
  have "run cfg (sequential (map (\<lambda>j. web (job_url j)) (j # js))) s =
        run cfg (sequential (map (\<lambda>j. web (job_url j)) js)) ?s'"
    unfolding list.map sequential_Cons run_append first by simp
  with rest show ?case by (simp add: lr)
qed

lemma sequential_session:
  assumes w: "1 \<le> WORKER_LIMIT cfg"
    and l: "\<forall>u\<in>set urls. \<exists>r. load_page cfg (web u) = Inr r"
  shows "create_session cfg urls (sequential (map web urls)) =
           Some (map (\<lambda>u. record_outcome u (loaded cfg (web u))) urls)"
proof -
  let ?s = "init_session cfg urls"
  have m: "map (\<lambda>j. f (job_url j)) (jobs urls) = map f urls" for f :: "string \<Rightarrow> 'b"
  proof -
    have "map (\<lambda>j. f (job_url j)) (jobs urls) = map f (map job_url (jobs urls))"
      by (simp add: comp_def)
    then show ?thesis by (simp only: job_urls)
  qed
  have t: "jobs urls \<noteq> [] \<longrightarrow> 0 < length (tabs ?s) \<and> tabs ?s ! 0 = Idle"
  proof
    assume "jobs urls \<noteq> []"
    then have "urls \<noteq> []" by (auto simp: jobs_def)
    then have "1 \<le> new_tabs_count cfg urls"
      using w by (cases urls) (auto simp: new_tabs_count_def)
    then have "0 < length (tab_ids cfg urls)" by (simp add: tab_ids_def)
    then show "0 < length (tabs ?s) \<and> tabs ?s ! 0 = Idle"
      by (simp add: init_session_def)
  qed
  have "\<forall>j\<in>set (jobs urls). \<exists>r. load_page cfg (web (job_url j)) = Inr r"
  proof
    fix j assume "j \<in> set (jobs urls)"
    then have "job_url j \<in> set (map job_url (jobs urls))" by simp
    then have "job_url j \<in> set urls" by (simp only: job_urls)
    with l show "\<exists>r. load_page cfg (web (job_url j)) = Inr r" by blast
  qed
  from sequential_run[OF t _ _ this]
  have "run cfg (sequential (map (\<lambda>j. web (job_url j)) (jobs urls))) ?s =
          Some (?s\<lparr>pending := [],
                   session_result := session_result ?s @
                     map (\<lambda>j. record_outcome (job_url j) (loaded cfg (web (job_url j)))) (jobs urls)\<rparr>)"
    by (simp add: init_session_def)
  then have "run cfg (sequential (map web urls)) ?s =
          Some (?s\<lparr>pending := [],
                   session_result := session_result ?s @
                     map (\<lambda>u. record_outcome u (loaded cfg (web u))) urls\<rparr>)"
    unfolding m[of web] m[of "\<lambda>u. record_outcome u (loaded cfg (web u))"] .
  then show ?thesis
    by (simp add: create_session_def joined_def init_session_def)
qed

section \<open>Properties of the product rounds\<close>

declare fetch_loop.simps [simp del]

lemma late_web_session:
  "scripted_session example_config late_web r urls =
     Some (map (\<lambda>u. record_outcome u (loaded example_config (late_web r u))) urls)"
  unfolding scripted_session_def
  by (rule sequential_session)
     (auto simp: late_web_def load_good load_failing example_config_def [THEN arg_cong, of WORKER_LIMIT])

lemma steady_web_session:
  "scripted_session example_config steady_web r urls =
     Some (map (\<lambda>u. record_outcome u (loaded example_config (steady_web r u))) urls)"
  unfolding scripted_session_def
  by (rule sequential_session)
     (auto simp: steady_web_def load_good load_failing example_config_def [THEN arg_cong, of WORKER_LIMIT])

lemma late_rounds:
  "scripted_session example_config late_web 3 [''/a'', ''/b''] =
     Some [\<lparr>url = ''/a'', is_successful = False, data = PyNone\<rparr>,
           \<lparr>url = ''/b'', is_successful = False, data = PyNone\<rparr>]"
  "scripted_session example_config late_web 2 [''/a'', ''/b''] =
     Some [\<lparr>url = ''/a'', is_successful = False, data = PyNone\<rparr>,
           \<lparr>url = ''/b'', is_successful = False, data = PyNone\<rparr>]"
  "scripted_session example_config late_web (Suc 0) [''/a'', ''/b''] =
     Some [\<lparr>url = ''/a'', is_successful = False, data = PyNone\<rparr>,
           \<lparr>url = ''/b'', is_successful = True, data = PyDict [(''name'', PyStr ''B'')]\<rparr>]"
  by (simp_all add: late_web_session late_web_def loaded_def load_good load_failing
        record_outcome_def)

lemma fetch_loop_0: "fetch_loop run_session 0 urls result = Some result"
  by (subst fetch_loop.simps) simp

text \<open>
  Claim C2 does not hold of the code.  For the two addresses \<open>/a\<close>, which never loads, and
  \<open>/b\<close>, which loads only in the third round, the last round first appends its successful
  outcome and then, because \<open>/a\<close> is still failing and no round remains, appends all of
  the round's outcomes: the products hold three outcomes for two addresses, that of
  \<open>/b\<close> twice.
\<close>

theorem fetch_products_repeats_late_success:
  "fetch_products (scripted_session example_config late_web) [''/a'', ''/b''] =
     Some [\<lparr>url = ''/b'', is_successful = True, data = PyDict [(''name'', PyStr ''B'')]\<rparr>,
           \<lparr>url = ''/a'', is_successful = False, data = PyNone\<rparr>,
           \<lparr>url = ''/b'', is_successful = True, data = PyDict [(''name'', PyStr ''B'')]\<rparr>]"
proof -
  let ?s = "scripted_session example_config late_web"
  have 3: "fetch_loop ?s 3 [''/a'', ''/b''] [] = fetch_loop ?s 2 [''/a'', ''/b''] []"
    by (subst fetch_loop.simps) (simp add: late_rounds)
  have 2: "fetch_loop ?s 2 [''/a'', ''/b''] [] = fetch_loop ?s (Suc 0) [''/a'', ''/b''] []"
    by (subst fetch_loop.simps) (simp add: late_rounds)
  have 1: "fetch_loop ?s (Suc 0) [''/a'', ''/b''] [] =
      Some [\<lparr>url = ''/b'', is_successful = True, data = PyDict [(''name'', PyStr ''B'')]\<rparr>,
         \<lparr>url = ''/a'', is_successful = False, data = PyNone\<rparr>,
         \<lparr>url = ''/b'', is_successful = True, data = PyDict [(''name'', PyStr ''B'')]\<rparr>]"
    by (subst fetch_loop.simps) (simp add: late_rounds fetch_loop_0)
  show ?thesis
    unfolding fetch_products_def 3 2 1 ..
qed

text \<open>
  The case spelled out with the claim does hold: of three addresses one never loads and
  the others load at once; the products hold three outcomes, one of them unsuccessful.
\<close>

lemma steady_rounds:
  "scripted_session example_config steady_web 3 [''/a'', ''/b'', ''/c''] =
     Some [\<lparr>url = ''/a'', is_successful = True, data = PyDict [(''name'', PyStr ''/a'')]\<rparr>,
           \<lparr>url = ''/b'', is_successful = True, data = PyDict [(''name'', PyStr ''/b'')]\<rparr>,
           \<lparr>url = ''/c'', is_successful = False, data = PyNone\<rparr>]"
  "scripted_session example_config steady_web r [''/c''] =
     Some [\<lparr>url = ''/c'', is_successful = False, data = PyNone\<rparr>]"
  by (simp_all add: steady_web_session steady_web_def loaded_def load_good load_failing
        record_outcome_def)

lemma fetch_products_one_steady_failure:
  "fetch_products (scripted_session example_config steady_web) [''/a'', ''/b'', ''/c''] =
     Some [\<lparr>url = ''/a'', is_successful = True, data = PyDict [(''name'', PyStr ''/a'')]\<rparr>,
           \<lparr>url = ''/b'', is_successful = True, data = PyDict [(''name'', PyStr ''/b'')]\<rparr>,
           \<lparr>url = ''/c'', is_successful = False, data = PyNone\<rparr>]"
proof -
  let ?s = "scripted_session example_config steady_web"
  let ?ab = "[\<lparr>url = ''/a'', is_successful = True, data = PyDict [(''name'', PyStr ''/a'')]\<rparr>,
              \<lparr>url = ''/b'', is_successful = True, data = PyDict [(''name'', PyStr ''/b'')]\<rparr>]"
  have 3: "fetch_loop ?s 3 [''/a'', ''/b'', ''/c''] [] = fetch_loop ?s 2 [''/c''] ?ab"
    by (subst fetch_loop.simps) (simp add: steady_rounds)
  have 2: "fetch_loop ?s 2 [''/c''] ?ab = fetch_loop ?s (Suc 0) [''/c''] ?ab"
    by (subst fetch_loop.simps) (simp add: steady_rounds)
  have 1: "fetch_loop ?s (Suc 0) [''/c''] ?ab =
      Some (?ab @ [\<lparr>url = ''/c'', is_successful = False, data = PyNone\<rparr>])"
    by (subst fetch_loop.simps) (simp add: steady_rounds fetch_loop_0)
  show ?thesis
    unfolding fetch_products_def 3 2 1 by simp
qed

section \<open>Properties of the listing parser\<close>

lemma get_urls_on_page_eq: "get_urls_on_page p = card_hrefs p"
  by (simp add: get_urls_on_page_def)

lemma listing_loop_Suc:
  "listing_loop (Suc fuel) site p visited product_urls =
     (case next_target p of
        None \<Rightarrow> Some (Inr (visited @ [p], product_urls @ card_hrefs p))
      | Some href \<Rightarrow>
          (case site href of
             Inl e \<Rightarrow> Some (Inl e)
           | Inr q \<Rightarrow> listing_loop fuel site q (visited @ [p]) (product_urls @ card_hrefs p)))"
  by (simp add: next_target_def get_next_page_url_def get_urls_on_page_eq
        split: option.splits sum.splits)

declare listing_loop.simps(2) [simp del]

lemma crawl_path_stop:
  "next_target p = None \<Longrightarrow> crawl_path site (p # ps) = (ps = [])"
  by (cases ps) auto

lemma crawl_path_go:
  "next_target p = Some href \<Longrightarrow>
     crawl_path site (p # ps) = (\<exists>q qs. ps = q # qs \<and> site href = Inr q \<and> crawl_path site (q # qs))"
  by (cases ps) auto

lemma listing_loop_paths:
  "(listing_loop fuel site p visited product_urls = Some (Inr (V, U))) =
     (\<exists>ps. crawl_path site (p # ps) \<and> length (p # ps) \<le> fuel
        \<and> V = visited @ p # ps \<and> U = product_urls @ concat (map card_hrefs (p # ps)))"
proof (induction fuel arbitrary: p visited product_urls)
  case 0
  show ?case by simp
next
  case (Suc fuel)
  show ?case
  proof (cases "next_target p")
    case None
    then show ?thesis
      by (auto simp: listing_loop_Suc crawl_path_stop)
  next
    case (Some href)
    show ?thesis
    proof (cases "site href")
      case (Inl e)
      with Some show ?thesis
        by (auto simp: listing_loop_Suc crawl_path_go)
    next
      case (Inr q)
      have "(listing_loop (Suc fuel) site p visited product_urls = Some (Inr (V, U))) =
            (listing_loop fuel site q (visited @ [p]) (product_urls @ card_hrefs p) = Some (Inr (V, U)))"
        using Some Inr by (simp add: listing_loop_Suc)
      also have "\<dots> = (\<exists>qs. crawl_path site (q # qs) \<and> length (q # qs) \<le> fuel
          \<and> V = (visited @ [p]) @ q # qs
          \<and> U = (product_urls @ card_hrefs p) @ concat (map card_hrefs (q # qs)))"
        by (rule Suc.IH)
      also have "\<dots> = (\<exists>ps. crawl_path site (p # ps) \<and> length (p # ps) \<le> Suc fuel
          \<and> V = visited @ p # ps \<and> U = product_urls @ concat (map card_hrefs (p # ps)))"
        using Some Inr by (auto simp: crawl_path_go)
      finally show ?thesis .
    qed
  qed
qed

text \<open>
  Claim C9, amended.  The parser returns, from page \<open>p\<close> and with enough fuel, exactly
  when the pages reached by following Next links form a finite path that ends at the first
  page without a visible Next link carrying a non-empty \<open>href\<close>; a visible Next link whose
  \<open>href\<close> is missing or empty ends the crawl as well.  What it returns is the
  concatenation of the pages' link batches in the order of the visits.
\<close>

theorem listing_parser_result:
  "(listing_parser fuel site p = Some (Inr (visited, product_urls))) =
     (visited \<noteq> [] \<and> hd visited = p \<and> crawl_path site visited \<and> length visited \<le> fuel
      \<and> product_urls = concat (map card_hrefs visited))"
proof -
  have "(listing_parser fuel site p = Some (Inr (visited, product_urls))) =
      (\<exists>ps. crawl_path site (p # ps) \<and> length (p # ps) \<le> fuel
        \<and> visited = [] @ p # ps \<and> product_urls = [] @ concat (map card_hrefs (p # ps)))"
    unfolding listing_parser_def by (rule listing_loop_paths)
  also have "\<dots> = (visited \<noteq> [] \<and> hd visited = p \<and> crawl_path site visited \<and> length visited \<le> fuel
      \<and> product_urls = concat (map card_hrefs visited))"
    by (cases visited) auto
  finally show ?thesis .
qed

theorem listing_parser_result_witness:
  "crawl_path two_page_site [page_one, page_two]
   \<and> listing_parser 2 two_page_site page_one =
       Some (Inr ([page_one, page_two], card_hrefs page_one @ card_hrefs page_two))
   \<and> length (card_hrefs page_one @ card_hrefs page_two) = 30
   \<and> take 20 (card_hrefs page_one @ card_hrefs page_two) = card_hrefs page_one"
proof -
  have n: "next_target page_one = Some ''/list?p=2''" "next_target page_two = None"
    by (simp_all add: next_target_def page_one_def page_two_def)
  have c: "crawl_path two_page_site [page_one, page_two]"
    by (simp add: n two_page_site_def)
  have l: "length (card_hrefs page_one) = 20" "length (card_hrefs page_two) = 10"
    by (simp_all add: page_one_def page_two_def)
  from listing_parser_result[of 2 two_page_site page_one "[page_one, page_two]"
      "card_hrefs page_one @ card_hrefs page_two"] c l
  show ?thesis by simp
qed

text \<open>
  Claim C9 as stated fails: on a page whose Next link is visible but has no \<open>href\<close> the
  loop ends, although a visible next-page control exists there.
\<close>

theorem listing_stops_at_visible_next_counterexample:
  "next_visible disabled_next_page
   \<and> listing_parser 1 two_page_site disabled_next_page =
       Some (Inr ([disabled_next_page], [Some ''/a/1'']))"
  by (simp add: listing_parser_def disabled_next_page_def listing_loop_Suc next_target_def)

section \<open>A returned session is at rest\<close>

lemma idle_worker: "busy ws = 0 \<Longrightarrow> i < length ws \<Longrightarrow> ws ! i = Idle"
proof (induction ws arbitrary: i)
  case Nil
  then show ?case by simp
next
  case (Cons w ws)
  then show ?case by (cases w; cases i) auto
qed

text \<open>
  Once \<open>queue.join()\<close> has returned no task can take a step: the producer is done, the
  queue is empty and every worker is blocked in \<open>queue.get()\<close>.  The list the session
  returns is the list as it stands then.
\<close>

lemma joined_is_final:
  assumes "accounted urls s" and "joined s"
  shows "step cfg a s = None"
proof -
  from assms have b: "busy (tabs s) = 0" and q: "queue s = []" and p: "pending s = []"
    by (auto simp: accounted_def joined_def)
  show ?thesis
  proof (cases a)
    case Put
    with p show ?thesis by simp
  next
    case (Get i)
    with q show ?thesis by simp
  next
    case (Load i visits)
    with idle_worker[OF b, of i] show ?thesis by simp
  next
    case (TaskDone i)
    with idle_worker[OF b, of i] show ?thesis by simp
  qed
qed

section \<open>Rounds over pages that behave the same in every round\<close>

text \<open>
  When every session returns one outcome per submitted address and an address either
  succeeds in every round or fails in every round, the products hold one outcome per
  address.
\<close>

lemma fetch_products_steady:
  assumes sess: "\<And>r us. \<exists>att. run_session r us = Some att \<and> mset (map url att) = mset us
                    \<and> (\<forall>item\<in>set att. is_successful item = ok (url item))"
  shows "\<exists>products. fetch_products run_session urls = Some products
           \<and> mset (map url products) = mset urls
           \<and> (\<forall>item\<in>set products. is_successful item = ok (url item))"
proof (cases "urls = []")
  case True
  then show ?thesis
    by (simp add: fetch_products_def fetch_loop.simps)
next
  case False
  define bad where "bad att = map url (filter (\<lambda>item. is_successful item = False) att)" for att :: "outcome list"
  define good where "good att = filter (\<lambda>item. is_successful item = True) att" for att :: "outcome list"
  have split: "mset (map url (good att)) + mset (bad att) = mset (map url att)" for att
    unfolding good_def bad_def by (induction att) auto
  have allbad: "good att = [] \<and> mset (bad att) = mset us"
    if "mset (map url att) = mset us" "\<forall>item\<in>set att. is_successful item = ok (url item)"
      "\<forall>u\<in>set us. \<not> ok u" for att us
  proof -
    have "set (map url att) = set us" using that(1) by (rule mset_eq_setD)
    then have "\<forall>item\<in>set att. \<not> is_successful item" using that(2,3) by auto
    then have g: "good att = []" and b: "bad att = map url att"
      unfolding good_def bad_def by (auto simp: filter_empty_conv filter_id_conv)
    with that(1) show ?thesis by simp
  qed
  obtain a1 where a1: "run_session 3 urls = Some a1" "mset (map url a1) = mset urls"
    "\<forall>item\<in>set a1. is_successful item = ok (url item)" using sess by blast
  have okg: "\<forall>item\<in>set (good a1). is_successful item = ok (url item)"
    using a1(3) by (auto simp: good_def)
  have nb: "\<forall>u\<in>set (bad a1). \<not> ok u"
    using a1(3) by (auto simp: bad_def)
  have 3: "fetch_loop run_session 3 urls [] =
      (if bad a1 = [] then Some (good a1) else fetch_loop run_session 2 (bad a1) (good a1))"
    using False a1(1) by (subst fetch_loop.simps) (simp add: good_def bad_def)
  show ?thesis
  proof (cases "bad a1 = []")
    case True
    with split[of a1] a1(2) okg 3 show ?thesis
      by (simp add: fetch_products_def)
  next
    case b1: False
    obtain a2 where a2: "run_session 2 (bad a1) = Some a2" "mset (map url a2) = mset (bad a1)"
      "\<forall>item\<in>set a2. is_successful item = ok (url item)" using sess by blast
    from allbad[OF a2(2,3) nb] have g2: "good a2 = []" and b2: "mset (bad a2) = mset (bad a1)"
      by auto
    from b2 b1 have b2n: "bad a2 \<noteq> []" by auto
    have 2: "fetch_loop run_session 2 (bad a1) (good a1) =
        fetch_loop run_session (Suc 0) (bad a2) (good a1)"
      using b1 a2(1) g2 b2n by (subst fetch_loop.simps) (simp add: good_def bad_def)
    have nb2: "\<forall>u\<in>set (bad a2). \<not> ok u"
      using nb b2 by (metis mset_eq_setD)
    obtain a3 where a3: "run_session (Suc 0) (bad a2) = Some a3" "mset (map url a3) = mset (bad a2)"
      "\<forall>item\<in>set a3. is_successful item = ok (url item)" using sess by blast
    from allbad[OF a3(2,3) nb2] have g3: "good a3 = []" and b3: "mset (bad a3) = mset (bad a2)"
      by auto
    from b3 b2n have b3n: "bad a3 \<noteq> []" by auto
    have 1: "fetch_loop run_session (Suc 0) (bad a2) (good a1) = Some (good a1 @ a3)"
      using b2n a3(1) g3 b3n
      by (subst fetch_loop.simps) (simp add: good_def bad_def fetch_loop_0)
    have "mset (map url (good a1 @ a3)) = mset urls"
      using split[of a1] a1(2) a3(2) b2 by simp
    moreover have "\<forall>item\<in>set (good a1 @ a3). is_successful item = ok (url item)"
      using okg a3(3) by auto
    ultimately show ?thesis
      using 3 b1 2 1 by (simp add: fetch_products_def)
  qed
qed

end
